theory Spec2Isabelle
  imports Main
begin

section \<open>Library primitives\<close>

text \<open>
  The ledger calls into Python's standard library for hashing, JSON serialisation and
  number formatting. These are not part of the repository; they are taken as parameters,
  collected in one record, and nothing is assumed about them. The amount type \<open>'a\<close> stands
  for Python's numbers (the code passes both \<open>int\<close> and \<open>float\<close> values); only the
  operations the code applies to amounts are required of it (\<open>0\<close>, \<open>+\<close>, \<open>-\<close>, \<open><\<close>),
  with no algebraic law assumed, so every theorem holds for floating-point arithmetic too.
\<close>

datatype 'a json =
    JNull
  | JString string
  | JInt int
  | JNumber 'a
  | JList "'a json list"
  | JDict "(string \<times> 'a json) list"

record 'a runtime =
  sha3_256_hexdigest :: "string \<Rightarrow> string"
    \<comment> \<open>\<^verbatim>\<open>hashlib.sha3_256(s.encode()).hexdigest()\<close>\<close>
  sha3_256_digest :: "string \<Rightarrow> string"
    \<comment> \<open>\<^verbatim>\<open>SHA3_256.new().update(bs).digest()\<close> of PyCryptodome\<close>
  json_dumps :: "'a json \<Rightarrow> string"
    \<comment> \<open>\<^verbatim>\<open>json.dumps(v, sort_keys=True)\<close>\<close>
  format_amount :: "'a \<Rightarrow> string"
    \<comment> \<open>an amount inside an f-string, \<^verbatim>\<open>f"{amount}"\<close>\<close>
  float_10 :: 'a
    \<comment> \<open>the value of the literal \<^verbatim>\<open>10.0\<close>\<close>

datatype py_error = IndexError

text \<open>Python's \<^verbatim>\<open>x or d\<close> on an optional string: \<^verbatim>\<open>None\<close> and \<^verbatim>\<open>""\<close> are falsy.\<close>

definition py_or :: "string option \<Rightarrow> string \<Rightarrow> string" where
  "py_or v d = (case v of None \<Rightarrow> d | Some s \<Rightarrow> if s = [] then d else s)"

text \<open>Python's slice \<^verbatim>\<open>s[:d]\<close>; a negative \<open>d\<close> counts from the end.\<close>

definition py_slice_to :: "string \<Rightarrow> int \<Rightarrow> string" where
  "py_slice_to s d = (if 0 \<le> d then take (nat d) s else take (length s - nat (- d)) s)"

text \<open>Python's \<^verbatim>\<open>'0' * d\<close>; empty for \<open>d \<le> 0\<close>.\<close>

definition zeros :: "int \<Rightarrow> string" where
  "zeros d = replicate (nat d) CHR ''0''"

definition startswith :: "string \<Rightarrow> string \<Rightarrow> bool" where
  "startswith s p = (take (length p) s = p)"

text \<open>\<^verbatim>\<open>bytes.hex()\<close>: two lower-case hexadecimal digits per byte.\<close>

definition hex_digit :: "nat \<Rightarrow> char" where
  "hex_digit n = ''0123456789abcdef'' ! (n mod 16)"

definition bytes_hex :: "string \<Rightarrow> string" where
  "bytes_hex bs = concat (map (\<lambda>c. [hex_digit (of_char c div 16), hex_digit (of_char c)]) bs)"

section \<open>Transactions (\<^verbatim>\<open>blockchain/block.py\<close>)\<close>

record 'a Transaction =
  sender :: string
  recipient :: string
  amount :: 'a
  timestamp :: string
  signature :: "string option"
  nonce :: string

text \<open>
  \<^verbatim>\<open>Transaction.__init__\<close>. The clock reading \<^verbatim>\<open>datetime.now().isoformat()\<close> is the
  argument \<open>now\<close>. No check is made on any argument.
\<close>

definition Transaction_init ::
  "'a runtime \<Rightarrow> string \<Rightarrow> string \<Rightarrow> 'a \<Rightarrow> string option \<Rightarrow> string option \<Rightarrow> string
    \<Rightarrow> 'a Transaction" where
  "Transaction_init rt s r a sig nonce_arg now =
     \<lparr> sender = s, recipient = r, amount = a, timestamp = now, signature = sig,
       nonce = py_or nonce_arg (sha3_256_hexdigest rt (s @ r @ format_amount rt a @ now)) \<rparr>"

definition to_dict :: "'a Transaction \<Rightarrow> 'a json" where
  "to_dict tx = JDict
     [ (''sender'', JString (sender tx)),
       (''recipient'', JString (recipient tx)),
       (''amount'', JNumber (amount tx)),
       (''timestamp'', JString (timestamp tx)),
       (''nonce'', JString (nonce tx)),
       (''signature'',
          (case signature tx of
             None \<Rightarrow> JNull
           | Some bs \<Rightarrow> if bs = [] then JNull else JString (bytes_hex bs))) ]"

definition get_hash :: "'a runtime \<Rightarrow> 'a Transaction \<Rightarrow> string" where
  "get_hash rt tx = sha3_256_hexdigest rt (json_dumps rt (to_dict tx))"

section \<open>Merkle root (\<^verbatim>\<open>Block._calculate_merkle_root\<close>)\<close>

text \<open>
  The inner \<^verbatim>\<open>for i in range(0, len(tx_hashes), 2)\<close> loop, by index; reading
  \<^verbatim>\<open>tx_hashes[i + 1]\<close> past the end raises \<^verbatim>\<open>IndexError\<close>.
\<close>

function combine_pairs ::
  "'a runtime \<Rightarrow> string list \<Rightarrow> nat \<Rightarrow> string list \<Rightarrow> py_error + string list" where
  "combine_pairs rt tx_hashes i new_hashes =
     (if i < length tx_hashes then
        (if i + 1 < length tx_hashes then
           combine_pairs rt tx_hashes (i + 2)
             (new_hashes @ [sha3_256_hexdigest rt (tx_hashes ! i @ tx_hashes ! (i + 1))])
         else Inl IndexError)
      else Inr new_hashes)"
  by pat_completeness auto
termination
  by (relation "measure (\<lambda>(rt, tx_hashes, i, new_hashes). length tx_hashes - i)") auto

declare combine_pairs.simps [simp del]

lemma combine_pairs_length:
  "combine_pairs rt hs i acc = Inr new \<Longrightarrow> length new = length acc + (length hs - i) div 2"
proof (induction rt hs i acc rule: combine_pairs.induct)
  case (1 rt hs i acc)
  show ?case
  proof (cases "i + 1 < length hs")
    case True
    with "1.prems" have "combine_pairs rt hs (i + 2)
        (acc @ [sha3_256_hexdigest rt (hs ! i @ hs ! (i + 1))]) = Inr new"
      by (subst (asm) combine_pairs.simps) simp
    from "1.IH" [OF _ True this] True show ?thesis by simp
  next
    case False
    with "1.prems" show ?thesis
      by (subst (asm) combine_pairs.simps) (simp split: if_splits)
  qed
qed

text \<open>
  The outer \<^verbatim>\<open>while len(tx_hashes) > 1\<close> loop: pad with a copy of the last hash when the
  count is odd, then replace the list by the hashes of its adjacent pairs.
\<close>

function merkle_loop :: "'a runtime \<Rightarrow> string list \<Rightarrow> py_error + string list" where
  "merkle_loop rt tx_hashes =
     (if length tx_hashes > 1 then
        (let padded = (if length tx_hashes mod 2 \<noteq> 0 then tx_hashes @ [last tx_hashes]
                       else tx_hashes)
         in case combine_pairs rt padded 0 [] of
              Inl e \<Rightarrow> Inl e
            | Inr new_hashes \<Rightarrow> merkle_loop rt new_hashes)
      else Inr tx_hashes)"
  by pat_completeness auto
termination
proof (relation "measure (\<lambda>(rt, tx_hashes). length tx_hashes)", goal_cases)
  case 1
  show ?case by simp
next
  case (2 rt tx_hashes padded new_hashes)
  from combine_pairs_length [OF 2(3)]
  have "length new_hashes = length padded div 2" by simp
  with 2(1,2) show ?case by (auto split: if_splits)
qed

declare merkle_loop.simps [simp del]

definition calculate_merkle_root :: "'a runtime \<Rightarrow> 'a Transaction list \<Rightarrow> py_error + string" where
  "calculate_merkle_root rt txs =
     (if txs = [] then Inr (sha3_256_hexdigest rt [])
      else case merkle_loop rt (map (get_hash rt) txs) of
             Inl e \<Rightarrow> Inl e
           | Inr tx_hashes \<Rightarrow> (case tx_hashes of [] \<Rightarrow> Inl IndexError | h # _ \<Rightarrow> Inr h))"

text \<open>
  The reference definition, following the specification's words: pair adjacent hashes left
  to right, hashing the concatenation of each pair, after duplicating the last hash when
  the count is odd; repeat until one hash remains. The empty sequence has the hash of the
  empty byte string as its root, a single hash is its own root.
\<close>

fun pair_hashes :: "'a runtime \<Rightarrow> string list \<Rightarrow> string list" where
  "pair_hashes rt (a # b # hs) = sha3_256_hexdigest rt (a @ b) # pair_hashes rt hs"
| "pair_hashes rt hs = []"

definition spec_level :: "'a runtime \<Rightarrow> string list \<Rightarrow> string list" where
  "spec_level rt hs = pair_hashes rt (if odd (length hs) then hs @ [last hs] else hs)"

lemma length_pair_hashes: "length (pair_hashes rt hs) = length hs div 2"
  by (induction rt hs rule: pair_hashes.induct) simp_all

lemma length_spec_level: "length (spec_level rt hs) = (length hs + 1) div 2"
  by (cases "odd (length hs)") (simp_all add: spec_level_def length_pair_hashes)

function spec_root :: "'a runtime \<Rightarrow> string list \<Rightarrow> string" where
  "spec_root rt [] = sha3_256_hexdigest rt []"
| "spec_root rt [h] = h"
| "spec_root rt (a # b # hs) = spec_root rt (spec_level rt (a # b # hs))"
  by pat_completeness auto
termination
  by (relation "measure (\<lambda>(rt, hs). length hs)")
     (simp_all add: length_spec_level)

definition spec_merkle_root :: "'a runtime \<Rightarrow> 'a Transaction list \<Rightarrow> string" where
  "spec_merkle_root rt txs = spec_root rt (map (get_hash rt) txs)"

section \<open>Blocks (\<^verbatim>\<open>blockchain/block.py\<close>)\<close>

record 'a Block =
  index :: int
  transactions :: "'a Transaction list"
  previous_hash :: "string option"
  block_timestamp :: string
  block_nonce :: int
  hash :: "string option"
  merkle_root :: string

text \<open>
  \<^verbatim>\<open>Block.__init__\<close>. The clock is read only when no (non-empty) timestamp is passed.
  The Merkle root is computed once, here.
\<close>

definition Block_init ::
  "'a runtime \<Rightarrow> int \<Rightarrow> 'a Transaction list \<Rightarrow> string option \<Rightarrow> string option \<Rightarrow> string
    \<Rightarrow> py_error + 'a Block" where
  "Block_init rt idx txs prev ts now =
     (case calculate_merkle_root rt txs of
        Inl e \<Rightarrow> Inl e
      | Inr root \<Rightarrow>
          Inr \<lparr> index = idx, transactions = txs, previous_hash = prev,
                block_timestamp = py_or ts now, block_nonce = 0, hash = None,
                merkle_root = root \<rparr>)"

text \<open>The dictionary that \<^verbatim>\<open>calculate_hash\<close> serialises; the stored hash is not part of it.\<close>

definition block_data :: "'a Block \<Rightarrow> 'a json" where
  "block_data b = JDict
     [ (''index'', JInt (index b)),
       (''timestamp'', JString (block_timestamp b)),
       (''transactions'', JList (map to_dict (transactions b))),
       (''previous_hash'', (case previous_hash b of None \<Rightarrow> JNull | Some h \<Rightarrow> JString h)),
       (''merkle_root'', JString (merkle_root b)),
       (''nonce'', JInt (block_nonce b)) ]"

definition calculate_hash :: "'a runtime \<Rightarrow> 'a Block \<Rightarrow> string" where
  "calculate_hash rt b = sha3_256_hexdigest rt (json_dumps rt (block_data b))"

text \<open>
  \<^verbatim>\<open>Block.mine_block\<close>: the \<^verbatim>\<open>while True\<close> loop has no bound on its attempts, so the
  function is partial; \<open>None\<close> stands for a loop that never exits.
\<close>

partial_function (option) mine_block :: "'a runtime \<Rightarrow> int \<Rightarrow> 'a Block \<Rightarrow> 'a Block option" where
  "mine_block rt d b =
     (let h = calculate_hash rt b in
      if py_slice_to h d = zeros d then Some (b\<lparr>hash := Some h\<rparr>)
      else mine_block rt d (b\<lparr>hash := Some h, block_nonce := block_nonce b + 1\<rparr>))"

text \<open>The loop's exit test when the nonce is \<open>n\<close>, and the block the loop leaves when it exits there.\<close>

definition attempt :: "'a runtime \<Rightarrow> int \<Rightarrow> 'a Block \<Rightarrow> int \<Rightarrow> bool" where
  "attempt rt d b n = (py_slice_to (calculate_hash rt (b\<lparr>block_nonce := n\<rparr>)) d = zeros d)"

definition mined_at :: "'a runtime \<Rightarrow> 'a Block \<Rightarrow> int \<Rightarrow> 'a Block" where
  "mined_at rt b n =
     b\<lparr>block_nonce := n, hash := Some (calculate_hash rt (b\<lparr>block_nonce := n\<rparr>))\<rparr>"

section \<open>The ledger (\<^verbatim>\<open>blockchain/blockchain.py\<close>)\<close>

record PQCKeyPair =
  algorithm :: string
  created_at :: string
  public_key :: string
  private_key :: string
  is_quantum_safe :: bool

record wallet =
  name :: string
  keypair :: PQCKeyPair
  balance :: int

record 'a Blockchain =
  chain :: "'a Block list"
  pending_transactions :: "'a Transaction list"
  difficulty :: int
  mining_reward :: 'a
  wallets :: "string \<rightharpoonup> wallet"

text \<open>The body of both inner loops: credit first, then debit.\<close>

definition apply_tx :: "string \<Rightarrow> 'a::{plus,minus} \<Rightarrow> 'a Transaction \<Rightarrow> 'a" where
  "apply_tx address bal tx =
     (let bal1 = (if recipient tx = address then bal + amount tx else bal);
          bal2 = (if sender tx = address then bal1 - amount tx else bal1)
      in bal2)"

fun balance_txs :: "string \<Rightarrow> 'a::{plus,minus} \<Rightarrow> 'a Transaction list \<Rightarrow> 'a" where
  "balance_txs address bal [] = bal"
| "balance_txs address bal (tx # txs) = balance_txs address (apply_tx address bal tx) txs"

fun balance_blocks :: "string \<Rightarrow> 'a::{plus,minus} \<Rightarrow> 'a Block list \<Rightarrow> 'a" where
  "balance_blocks address bal [] = bal"
| "balance_blocks address bal (b # bs) =
     balance_blocks address (balance_txs address bal (transactions b)) bs"

definition get_balance :: "'a::{zero,plus,minus} Blockchain \<Rightarrow> string \<Rightarrow> 'a" where
  "get_balance L address =
     balance_txs address (balance_blocks address 0 (chain L)) (pending_transactions L)"

text \<open>
  The balance as the specification words it: one fold, starting from 0, over every
  transaction of every chained block followed by every pending transaction, adding the
  amount when the address is the recipient and subtracting it when it is the sender.
\<close>

definition spec_balance :: "'a::{zero,plus,minus} Blockchain \<Rightarrow> string \<Rightarrow> 'a" where
  "spec_balance L address =
     foldl (\<lambda>bal tx. (if sender tx = address then (\<lambda>v. v - amount tx) else id)
                       ((if recipient tx = address then (\<lambda>v. v + amount tx) else id) bal))
       0 (concat (map transactions (chain L)) @ pending_transactions L)"

text \<open>\<^verbatim>\<open>self.chain[-1]\<close> raises \<^verbatim>\<open>IndexError\<close> on an empty chain.\<close>

definition get_latest_block :: "'a Blockchain \<Rightarrow> py_error + 'a Block" where
  "get_latest_block L = (if chain L = [] then Inl IndexError else Inr (last (chain L)))"

definition create_genesis_block ::
  "'a::zero runtime \<Rightarrow> 'a Blockchain \<Rightarrow> string \<Rightarrow> (py_error + 'a Blockchain) option" where
  "create_genesis_block rt L now =
     (let genesis_tx = Transaction_init rt ''System'' ''Genesis'' 0 None (Some ''genesis'') now
      in case Block_init rt 0 [genesis_tx] (Some (replicate 64 CHR ''0''))
                (Some ''2025-01-01T00:00:00'') now of
           Inl e \<Rightarrow> Some (Inl e)
         | Inr genesis_block \<Rightarrow>
             (case mine_block rt (difficulty L) genesis_block of
                None \<Rightarrow> None
              | Some mined \<Rightarrow> Some (Inr (L\<lparr>chain := chain L @ [mined]\<rparr>))))"

definition Blockchain_init ::
  "'a::zero runtime \<Rightarrow> int \<Rightarrow> string \<Rightarrow> (py_error + 'a Blockchain) option" where
  "Blockchain_init rt d now =
     create_genesis_block rt
       \<lparr> chain = [], pending_transactions = [], difficulty = d,
         mining_reward = float_10 rt, wallets = Map.empty \<rparr> now"

text \<open>\<^verbatim>\<open>PQCSignature.sign\<close> (\<^verbatim>\<open>blockchain/pqc_crypto.py\<close>).\<close>

definition sign :: "'a runtime \<Rightarrow> string \<Rightarrow> PQCKeyPair \<Rightarrow> string" where
  "sign rt message kp = sha3_256_digest rt (message @ private_key kp)"

text \<open>
  \<^verbatim>\<open>Blockchain.add_transaction\<close> returns \<^verbatim>\<open>False\<close> on an insufficient balance and
  \<^verbatim>\<open>True\<close> otherwise; the result is paired with the ledger after the call.
\<close>

definition add_transaction ::
  "'a::{zero,plus,minus,ord} runtime \<Rightarrow> 'a Blockchain \<Rightarrow> string \<Rightarrow> string \<Rightarrow> 'a \<Rightarrow> string
    \<Rightarrow> bool \<times> 'a Blockchain" where
  "add_transaction rt L s r a now =
     (if s \<noteq> ''System'' \<and> get_balance L s < a then (False, L)
      else
        let tx = Transaction_init rt s r a None None now;
            tx' = (case wallets L s of
                     Some w \<Rightarrow>
                       tx\<lparr>signature := Some (sign rt (s @ r @ format_amount rt a) (keypair w))\<rparr>
                   | None \<Rightarrow> tx)
        in (True, L\<lparr>pending_transactions := pending_transactions L @ [tx']\<rparr>))"

text \<open>
  \<^verbatim>\<open>Blockchain.mine_pending_transactions\<close> returns \<^verbatim>\<open>None\<close> on an empty pool and the
  mined block otherwise. The two clock readings are those of the new block and of the
  reward transaction. The outer \<open>option\<close> is \<open>None\<close> when mining never exits.
\<close>

definition mine_pending_transactions ::
  "'a runtime \<Rightarrow> 'a Blockchain \<Rightarrow> string \<Rightarrow> string \<Rightarrow> string
    \<Rightarrow> (py_error + ('a Block option \<times> 'a Blockchain)) option" where
  "mine_pending_transactions rt L miner_address now_block now_reward =
     (if pending_transactions L = [] then Some (Inr (None, L))
      else case get_latest_block L of
             Inl e \<Rightarrow> Some (Inl e)
           | Inr latest \<Rightarrow>
               (case Block_init rt (int (length (chain L))) (pending_transactions L)
                       (hash latest) None now_block of
                  Inl e \<Rightarrow> Some (Inl e)
                | Inr block \<Rightarrow>
                    (case mine_block rt (difficulty L) block of
                       None \<Rightarrow> None
                     | Some mined \<Rightarrow>
                         Some (Inr (Some mined,
                           L\<lparr>chain := chain L @ [mined],
                             pending_transactions :=
                               [Transaction_init rt ''System'' miner_address (mining_reward L)
                                  None (Some ''reward'') now_reward]\<rparr>)))))"

text \<open>
  \<^verbatim>\<open>Blockchain.is_chain_valid\<close>: the loop \<^verbatim>\<open>for i in range(1, len(self.chain))\<close>,
  returning \<^verbatim>\<open>False\<close> at the first failed check. A stored hash of \<^verbatim>\<open>None\<close> differs
  from every recomputed hash, so the first check fails on it.
\<close>

function valid_from :: "'a runtime \<Rightarrow> 'a Blockchain \<Rightarrow> nat \<Rightarrow> bool" where
  "valid_from rt L i =
     (if i < length (chain L) then
        (let current_block = chain L ! i;
             previous_block = chain L ! (i - 1)
         in case hash current_block of
              None \<Rightarrow> False
            | Some h \<Rightarrow>
                if h \<noteq> calculate_hash rt current_block then False
                else if previous_hash current_block \<noteq> hash previous_block then False
                else if \<not> startswith h (zeros (difficulty L)) then False
                else valid_from rt L (i + 1))
      else True)"
  by pat_completeness auto
termination
  by (relation "measure (\<lambda>(rt, L, i). length (chain L) - i)") auto

declare valid_from.simps [simp del]

definition is_chain_valid :: "'a runtime \<Rightarrow> 'a Blockchain \<Rightarrow> bool" where
  "is_chain_valid rt L = valid_from rt L 1"

text \<open>The three checks of \<open>is_chain_valid\<close> on the block at index \<open>i\<close>.\<close>

definition block_ok :: "'a runtime \<Rightarrow> 'a Blockchain \<Rightarrow> nat \<Rightarrow> bool" where
  "block_ok rt L i =
     (hash (chain L ! i) = Some (calculate_hash rt (chain L ! i)) \<and>
      previous_hash (chain L ! i) = hash (chain L ! (i - 1)) \<and>
      startswith (calculate_hash rt (chain L ! i)) (zeros (difficulty L)))"

text \<open>
  A finite sequence of calls to the ledger, each with the clock readings it takes, and
  the ledger after running them in order. A call that raises ends the run with its error;
  a mining call that never exits leaves no result.
\<close>

datatype 'a call =
    Submit string string 'a string
  | Mine string string string

fun run_calls ::
  "'a::{zero,plus,minus,ord} runtime \<Rightarrow> 'a Blockchain \<Rightarrow> 'a call list
    \<Rightarrow> (py_error + 'a Blockchain) option" where
  "run_calls rt L [] = Some (Inr L)"
| "run_calls rt L (Submit s r a now # cs) = run_calls rt (snd (add_transaction rt L s r a now)) cs"
| "run_calls rt L (Mine miner now_block now_reward # cs) =
     (case mine_pending_transactions rt L miner now_block now_reward of
        None \<Rightarrow> None
      | Some (Inl e) \<Rightarrow> Some (Inl e)
      | Some (Inr (_, L')) \<Rightarrow> run_calls rt L' cs)"

text \<open>
  Writing a new amount into transaction \<open>j\<close> of block \<open>i\<close>, past the ledger's interface:
  \<^verbatim>\<open>ledger.chain[i].transactions[j].amount = v\<close>. Nothing else changes; in particular
  the stored hashes and the Merkle root stay as they were.
\<close>

definition tamper_amount :: "'a Blockchain \<Rightarrow> nat \<Rightarrow> nat \<Rightarrow> 'a \<Rightarrow> 'a Blockchain" where
  "tamper_amount L i j v =
     L\<lparr>chain := (chain L)
        [i := (chain L ! i)
           \<lparr>transactions := (transactions (chain L ! i))
              [j := (transactions (chain L ! i) ! j)\<lparr>amount := v\<rparr>]\<rparr>]\<rparr>"

text \<open>Every transaction the ledger holds: those of the chained blocks in order, then the pool.\<close>

definition ledger_transactions :: "'a Blockchain \<Rightarrow> 'a Transaction list" where
  "ledger_transactions L = concat (map transactions (chain L)) @ pending_transactions L"

text \<open>Some pending transaction carries the nonce \<open>reward\<close>.\<close>

definition reward_pending :: "'a Blockchain \<Rightarrow> bool" where
  "reward_pending L = (\<exists>tx. tx \<in> set (pending_transactions L) \<and> nonce tx = ''reward'')"

section \<open>A concrete instance\<close>

text \<open>
  A small stand-in for the library primitives, over \<open>int\<close> amounts, on which the
  definitions can be evaluated: the serialisation writes as many characters as the numbers
  in the value add up to (index, nonce and amounts), and the hash is 64 copies of one
  hexadecimal digit chosen by the length of its input. The transaction and the block
  follow the module test of \<^verbatim>\<open>block.py\<close>.
\<close>

fun demo_size :: "int json \<Rightarrow> nat" where
  "demo_size JNull = 0"
| "demo_size (JString s) = 0"
| "demo_size (JInt n) = nat n"
| "demo_size (JNumber a) = nat a"
| "demo_size (JList js) = sum_list (map demo_size js)"
| "demo_size (JDict kvs) = sum_list (map (\<lambda>kv. demo_size (snd kv)) kvs)"

definition demo_dumps :: "int json \<Rightarrow> string" where
  "demo_dumps j = replicate (demo_size j) CHR ''x''"

definition demo_hash :: "string \<Rightarrow> string" where
  "demo_hash s = replicate 64 (if length s mod 4 = 2 then CHR ''0'' else CHR ''f'')"

definition demo_rt :: "int runtime" where
  "demo_rt = \<lparr> sha3_256_hexdigest = demo_hash, sha3_256_digest = demo_hash,
               json_dumps = demo_dumps, format_amount = (\<lambda>a. []), float_10 = 10 \<rparr>"

definition demo_weight :: "int Block \<Rightarrow> nat" where
  "demo_weight b = nat (index b) + sum_list (map (\<lambda>tx. nat (amount tx)) (transactions b))"



text \<open>
  The ledgers of a short session on this instance: \<^verbatim>\<open>Blockchain(difficulty=1)\<close>; then
  100 from \<open>System\<close> to Alice, mined by Alice; then 30 from Alice to Bob, mined by Bob.
  They are checked against the code below (\<open>demo_ledger0_init\<close>, \<open>demo_ledger1_run\<close>,
  \<open>demo_ledger2_run\<close>).
\<close>

definition demo_genesis :: "int Block" where
  "demo_genesis =
     \<lparr> index = 0,
       transactions =
         [\<lparr> sender = ''System'', recipient = ''Genesis'', amount = 0, timestamp = ''t0'',
            signature = None, nonce = ''genesis'' \<rparr>],
       previous_hash = Some (replicate 64 CHR ''0''),
       block_timestamp = ''2025-01-01T00:00:00'', block_nonce = 2,
       hash = Some (replicate 64 CHR ''0''), merkle_root = replicate 64 CHR ''f'' \<rparr>"

definition demo_block1 :: "int Block" where
  "demo_block1 =
     \<lparr> index = 1,
       transactions =
         [\<lparr> sender = ''System'', recipient = ''Alice'', amount = 100, timestamp = ''t1'',
            signature = None, nonce = replicate 64 CHR ''f'' \<rparr>],
       previous_hash = Some (replicate 64 CHR ''0''),
       block_timestamp = ''t2'', block_nonce = 1,
       hash = Some (replicate 64 CHR ''0''), merkle_root = replicate 64 CHR ''f'' \<rparr>"

definition demo_reward :: "string \<Rightarrow> string \<Rightarrow> int Transaction" where
  "demo_reward miner now =
     \<lparr> sender = ''System'', recipient = miner, amount = 10, timestamp = now,
       signature = None, nonce = ''reward'' \<rparr>"

definition demo_block2 :: "int Block" where
  "demo_block2 =
     \<lparr> index = 2,
       transactions =
         [demo_reward ''Alice'' ''t3'',
          \<lparr> sender = ''Alice'', recipient = ''Bob'', amount = 30, timestamp = ''t4'',
            signature = None, nonce = replicate 64 CHR ''0'' \<rparr>],
       previous_hash = Some (replicate 64 CHR ''0''),
       block_timestamp = ''t5'', block_nonce = 0,
       hash = Some (replicate 64 CHR ''0''), merkle_root = replicate 64 CHR ''f'' \<rparr>"

definition demo_ledger0 :: "int Blockchain" where
  "demo_ledger0 =
     \<lparr> chain = [demo_genesis], pending_transactions = [], difficulty = 1,
       mining_reward = 10, wallets = Map.empty \<rparr>"

definition demo_ledger1 :: "int Blockchain" where
  "demo_ledger1 =
     \<lparr> chain = [demo_genesis, demo_block1],
       pending_transactions = [demo_reward ''Alice'' ''t3''], difficulty = 1,
       mining_reward = 10, wallets = Map.empty \<rparr>"

definition demo_ledger2 :: "int Blockchain" where
  "demo_ledger2 =
     \<lparr> chain = [demo_genesis, demo_block1, demo_block2],
       pending_transactions = [demo_reward ''Bob'' ''t6''], difficulty = 1,
       mining_reward = 10, wallets = Map.empty \<rparr>"

section \<open>Merkle root: the code against the reference definition\<close>

lemma combine_pairs_pair_hashes:
  "i \<le> length hs \<Longrightarrow> even (length hs - i) \<Longrightarrow>
   combine_pairs rt hs i acc = Inr (acc @ pair_hashes rt (drop i hs))"
proof (induction rt hs i acc rule: combine_pairs.induct)
  case (1 rt hs i acc)
  show ?case
  proof (cases "i < length hs")
    case False
    with "1.prems" show ?thesis
      by (subst combine_pairs.simps) simp
  next
    case True
    have lt: "i + 1 < length hs"
    proof (rule ccontr)
      assume "\<not> i + 1 < length hs"
      with True have "length hs - i = 1" by simp
      with "1.prems" show False by simp
    qed
    have d: "drop i hs = hs ! i # hs ! (i + 1) # drop (i + 2) hs"
      using True lt by (simp add: Cons_nth_drop_Suc)
    have "combine_pairs rt hs (i + 2) (acc @ [sha3_256_hexdigest rt (hs ! i @ hs ! (i + 1))])
        = Inr ((acc @ [sha3_256_hexdigest rt (hs ! i @ hs ! (i + 1))])
               @ pair_hashes rt (drop (i + 2) hs))"
      using "1.IH" [OF True lt] lt "1.prems" by simp
    with True lt d show ?thesis
      by (subst combine_pairs.simps) simp
  qed
qed

lemma merkle_loop_level:
  "1 < length hs \<Longrightarrow> merkle_loop rt hs = merkle_loop rt (spec_level rt hs)"
proof -
  assume len: "1 < length hs"
  define padded where "padded = (if length hs mod 2 \<noteq> 0 then hs @ [last hs] else hs)"
  have ev: "even (length padded)"
    by (auto simp: padded_def)
  have "combine_pairs rt padded 0 [] = Inr (pair_hashes rt padded)"
    using combine_pairs_pair_hashes [of 0 padded rt "[]"] ev by simp
  moreover have "spec_level rt hs = pair_hashes rt padded"
    by (simp add: spec_level_def padded_def odd_iff_mod_2_eq_one)
  ultimately show ?thesis
    using len by (subst merkle_loop.simps) (simp add: padded_def Let_def)
qed

lemma merkle_loop_spec_root:
  "hs \<noteq> [] \<Longrightarrow> merkle_loop rt hs = Inr [spec_root rt hs]"
proof (induction rt hs rule: spec_root.induct)
  case (1 rt)
  then show ?case by simp
next
  case (2 rt h)
  show ?case by (subst merkle_loop.simps) simp
next
  case (3 rt a b hs)
  have ne: "spec_level rt (a # b # hs) \<noteq> []"
    by (cases "odd (length hs)") (simp_all add: spec_level_def)
  have "merkle_loop rt (a # b # hs) = merkle_loop rt (spec_level rt (a # b # hs))"
    by (rule merkle_loop_level) simp
  with "3.IH" [OF ne] show ?case by simp
qed

lemma calculate_merkle_root_eq:
  "calculate_merkle_root rt txs = Inr (spec_merkle_root rt txs)"
  by (cases "txs = []")
     (simp_all add: calculate_merkle_root_def spec_merkle_root_def merkle_loop_spec_root)

text \<open>
  C5. The Merkle root computed by the code equals the reference definition: the hash of
  the empty byte string for no transactions, the transaction's own content hash for a
  single one, and otherwise the result of repeatedly duplicating the last hash when the
  count is odd and hashing the concatenation of each adjacent pair, left to right, until
  one hash remains. In particular the computation never raises.
\<close>

theorem calculate_merkle_root_refines_spec:
  "calculate_merkle_root rt txs = Inr (spec_merkle_root rt txs) \<and>
   calculate_merkle_root rt [] = Inr (sha3_256_hexdigest rt []) \<and>
   calculate_merkle_root rt [tx] = Inr (get_hash rt tx)"
  by (simp add: calculate_merkle_root_eq spec_merkle_root_def)

lemma Block_init_eq:
  "Block_init rt idx txs prev ts now =
     Inr \<lparr> index = idx, transactions = txs, previous_hash = prev,
           block_timestamp = py_or ts now, block_nonce = 0, hash = None,
           merkle_root = spec_merkle_root rt txs \<rparr>"
  by (simp add: Block_init_def calculate_merkle_root_eq)

section \<open>Balance replay\<close>

lemma balance_txs_foldl:
  "balance_txs address bal txs = foldl (apply_tx address) bal txs"
  by (induction txs arbitrary: bal) simp_all

lemma balance_blocks_foldl:
  "balance_blocks address bal bs = foldl (apply_tx address) bal (concat (map transactions bs))"
  by (induction bs arbitrary: bal) (simp_all add: balance_txs_foldl)

lemma apply_tx_step:
  "apply_tx address =
     (\<lambda>bal tx. (if sender tx = address then (\<lambda>v. v - amount tx) else id)
                 ((if recipient tx = address then (\<lambda>v. v + amount tx) else id) bal))"
  by (auto simp: apply_tx_def fun_eq_iff)

text \<open>
  C4. For every ledger state and every address, \<open>get_balance\<close> equals the fold, from 0,
  over the transactions of all chained blocks in order followed by the pending
  transactions, crediting the amount to the recipient and debiting it from the sender
  (both when the address is both).
\<close>

theorem get_balance_is_fold:
  "get_balance L address = spec_balance L address"
  unfolding get_balance_def spec_balance_def
  by (simp add: balance_txs_foldl balance_blocks_foldl apply_tx_step [symmetric])

section \<open>The mining loop\<close>

lemma calculate_hash_hash_update [simp]:
  "calculate_hash rt (b\<lparr>hash := x\<rparr>) = calculate_hash rt b"
  by (simp add: calculate_hash_def block_data_def)

lemma attempt_hash_update [simp]:
  "attempt rt d (b\<lparr>hash := x\<rparr>) n = attempt rt d b n"
  by (simp add: attempt_def calculate_hash_def block_data_def)

lemma attempt_nonce_update [simp]:
  "attempt rt d (b\<lparr>block_nonce := k\<rparr>) n = attempt rt d b n"
  by (simp add: attempt_def)

lemma attempt_here:
  "attempt rt d b (block_nonce b) = (py_slice_to (calculate_hash rt b) d = zeros d)"
  by (simp add: attempt_def)

lemma mine_block_finds:
  "block_nonce b \<le> n \<Longrightarrow> attempt rt d b n \<Longrightarrow>
   (\<forall>m. block_nonce b \<le> m \<and> m < n \<longrightarrow> \<not> attempt rt d b m) \<Longrightarrow>
   mine_block rt d b = Some (mined_at rt b n)"
proof (induction k \<equiv> "nat (n - block_nonce b)" arbitrary: b)
  case 0
  then have eq: "n = block_nonce b" by simp
  with "0.prems" have "py_slice_to (calculate_hash rt b) d = zeros d"
    by (simp add: attempt_here)
  then show ?case
    by (subst mine_block.simps) (simp add: eq mined_at_def)
next
  case (Suc k)
  then have lt: "block_nonce b < n" by simp
  let ?b = "b\<lparr>hash := Some (calculate_hash rt b), block_nonce := block_nonce b + 1\<rparr>"
  from Suc.prems lt have no: "\<not> attempt rt d b (block_nonce b)" by simp
  have "mine_block rt d ?b = Some (mined_at rt ?b n)"
  proof (rule Suc.hyps(1))
    show "k = nat (n - block_nonce ?b)" using Suc.hyps(2) by simp
    show "block_nonce ?b \<le> n" using lt by simp
    show "attempt rt d ?b n" using Suc.prems(2) by simp
    show "\<forall>m. block_nonce ?b \<le> m \<and> m < n \<longrightarrow> \<not> attempt rt d ?b m"
      using Suc.prems(3) by simp
  qed
  moreover have "mined_at rt ?b n = mined_at rt b n"
    by (simp add: mined_at_def calculate_hash_def block_data_def)
  ultimately show ?case
    using no by (subst mine_block.simps) (simp add: attempt_here Let_def)
qed

lemma mine_block_Some:
  "mine_block rt d b = Some b' \<Longrightarrow>
   \<exists>n. block_nonce b \<le> n \<and> attempt rt d b n \<and>
       (\<forall>m. block_nonce b \<le> m \<and> m < n \<longrightarrow> \<not> attempt rt d b m) \<and> b' = mined_at rt b n"
proof (induction rt d b b' rule: mine_block.raw_induct [rotated 1, consumes 1])
  case (1 mine_block' rt d b b')
  note IH = 1(1) and body = 1(2)
  show ?case
  proof (cases "attempt rt d b (block_nonce b)")
    case True
    with body have "b' = mined_at rt b (block_nonce b)"
      by (simp add: attempt_here Let_def mined_at_def)
    with True show ?thesis by auto
  next
    case False
    let ?b = "b\<lparr>hash := Some (calculate_hash rt b), block_nonce := block_nonce b + 1\<rparr>"
    from False body have "mine_block' rt d ?b = Some b'"
      by (simp add: attempt_here Let_def)
    from IH [OF this] obtain n where n: "block_nonce ?b \<le> n" "attempt rt d ?b n"
      "\<forall>m. block_nonce ?b \<le> m \<and> m < n \<longrightarrow> \<not> attempt rt d ?b m" "b' = mined_at rt ?b n"
      by blast
    have eq: "mined_at rt ?b n = mined_at rt b n"
      by (simp add: mined_at_def calculate_hash_def block_data_def)
    have "\<forall>m. block_nonce b \<le> m \<and> m < n \<longrightarrow> \<not> attempt rt d b m"
    proof (intro allI impI)
      fix m assume m: "block_nonce b \<le> m \<and> m < n"
      show "\<not> attempt rt d b m"
      proof (cases "m = block_nonce b")
        case True with False show ?thesis by simp
      next
        case False
        with m have "block_nonce ?b \<le> m \<and> m < n" by simp
        with n(3) show ?thesis by simp
      qed
    qed
    with n eq show ?thesis by (intro exI [of _ n]) simp
  qed
qed


lemma startswith_slice:
  "py_slice_to h d = zeros d \<Longrightarrow> startswith h (zeros d)"
  by (cases "0 \<le> d") (simp_all add: py_slice_to_def zeros_def startswith_def)

lemma mine_block_result:
  assumes "mine_block rt d b = Some b'"
  shows "hash b' = Some (calculate_hash rt b')" "startswith (calculate_hash rt b') (zeros d)"
    "index b' = index b" "transactions b' = transactions b"
    "previous_hash b' = previous_hash b"
proof -
  from mine_block_Some [OF assms] obtain n where n: "attempt rt d b n" "b' = mined_at rt b n"
    by blast
  have h: "calculate_hash rt b' = calculate_hash rt (b\<lparr>block_nonce := n\<rparr>)"
    by (simp add: n(2) mined_at_def calculate_hash_def block_data_def)
  show "hash b' = Some (calculate_hash rt b')" by (simp add: h) (simp add: n(2) mined_at_def)
  show "startswith (calculate_hash rt b') (zeros d)"
    using n(1) by (simp add: h attempt_def startswith_slice)
  show "index b' = index b" "transactions b' = transactions b"
    "previous_hash b' = previous_hash b"
    by (simp_all add: n(2) mined_at_def)
qed



lemma demo_size_to_dict: "demo_size (to_dict tx) = nat (amount tx)"
  by (simp add: to_dict_def split: option.splits)

lemma demo_size_block_data:
  "demo_size (block_data b) = demo_weight b + nat (block_nonce b)"
  by (simp add: block_data_def demo_weight_def demo_size_to_dict comp_def split: option.splits)

lemma demo_calculate_hash:
  "calculate_hash demo_rt b =
     replicate 64 (if (demo_weight b + nat (block_nonce b)) mod 4 = 2 then CHR ''0'' else CHR ''f'')"
  by (simp add: calculate_hash_def demo_rt_def demo_dumps_def demo_hash_def
        demo_size_block_data)

lemma demo_weight_nonce [simp]: "demo_weight (b\<lparr>block_nonce := n\<rparr>) = demo_weight b"
  by (simp add: demo_weight_def)

lemma demo_attempt:
  "attempt demo_rt 1 b n \<longleftrightarrow> (demo_weight b + nat n) mod 4 = 2"
  by (simp add: attempt_def demo_calculate_hash py_slice_to_def zeros_def)

lemma mod4_least:
  "(w + k) mod 4 = 2 \<Longrightarrow> k < 4 \<Longrightarrow> j < k \<Longrightarrow> (w + j) mod 4 \<noteq> (2::nat)"
  by presburger

lemma demo_mine:
  assumes "block_nonce b = 0" and "(demo_weight b + k) mod 4 = 2" and "k < 4"
  shows "mine_block demo_rt 1 b = Some (mined_at demo_rt b (int k))"
proof (rule mine_block_finds)
  show "block_nonce b \<le> int k" using assms by simp
  show "attempt demo_rt 1 b (int k)" using assms by (simp add: demo_attempt)
  show "\<forall>m. block_nonce b \<le> m \<and> m < int k \<longrightarrow> \<not> attempt demo_rt 1 b m"
  proof (intro allI impI)
    fix m :: int assume m: "block_nonce b \<le> m \<and> m < int k"
    with assms have "nat m < k" by auto
    with assms(2,3) have "(demo_weight b + nat m) mod 4 \<noteq> 2" by (rule mod4_least)
    then show "\<not> attempt demo_rt 1 b m" by (simp add: demo_attempt)
  qed
qed




section \<open>Chain validation\<close>

lemma valid_from_iff:
  "valid_from rt L i \<longleftrightarrow> (\<forall>j. i \<le> j \<and> j < length (chain L) \<longrightarrow> block_ok rt L j)"
proof (induction rt L i rule: valid_from.induct)
  case (1 rt L i)
  show ?case
  proof (cases "i < length (chain L)")
    case False
    then show ?thesis by (subst valid_from.simps) auto
  next
    case True
    show ?thesis
    proof (cases "block_ok rt L i")
      case False
      then have "\<not> valid_from rt L i"
        using True
        by (subst valid_from.simps) (auto simp: block_ok_def Let_def split: option.splits)
      moreover from False True have "\<not> (\<forall>j. i \<le> j \<and> j < length (chain L) \<longrightarrow> block_ok rt L j)"
        by auto
      ultimately show ?thesis by simp
    next
      case ok: True
      then obtain h where h: "hash (chain L ! i) = Some h" "h = calculate_hash rt (chain L ! i)"
        "previous_hash (chain L ! i) = hash (chain L ! (i - 1))"
        "startswith h (zeros (difficulty L))"
        by (auto simp: block_ok_def)
      have "valid_from rt L i = valid_from rt L (i + 1)"
        using True h by (subst valid_from.simps) (simp add: Let_def)
      also have "\<dots> \<longleftrightarrow> (\<forall>j. i + 1 \<le> j \<and> j < length (chain L) \<longrightarrow> block_ok rt L j)"
        using "1.IH" [OF True refl refl h(1)] h by simp
      also have "\<dots> \<longleftrightarrow> (\<forall>j. i \<le> j \<and> j < length (chain L) \<longrightarrow> block_ok rt L j)"
      proof
        assume a: "\<forall>j. i + 1 \<le> j \<and> j < length (chain L) \<longrightarrow> block_ok rt L j"
        show "\<forall>j. i \<le> j \<and> j < length (chain L) \<longrightarrow> block_ok rt L j"
        proof (intro allI impI)
          fix j assume "i \<le> j \<and> j < length (chain L)"
          then show "block_ok rt L j" using a ok by (cases "j = i") auto
        qed
      qed auto
      finally show ?thesis .
    qed
  qed
qed

lemma is_chain_valid_iff_block_ok:
  "is_chain_valid rt L \<longleftrightarrow> (\<forall>i. 1 \<le> i \<and> i < length (chain L) \<longrightarrow> block_ok rt L i)"
  by (simp add: is_chain_valid_def valid_from_iff)

lemma block_ok_stored:
  "block_ok rt L i \<longleftrightarrow>
     hash (chain L ! i) = Some (calculate_hash rt (chain L ! i)) \<and>
     previous_hash (chain L ! i) = hash (chain L ! (i - 1)) \<and>
     (\<exists>h. hash (chain L ! i) = Some h \<and> startswith h (zeros (difficulty L)))"
  by (auto simp: block_ok_def)

lemma is_chain_valid_replace_block0:
  assumes g: "hash g = hash (chain L ! 0)"
  shows "is_chain_valid rt (L\<lparr>chain := (chain L)[0 := g]\<rparr>) = is_chain_valid rt L"
proof -
  let ?L = "L\<lparr>chain := (chain L)[0 := g]\<rparr>"
  have "block_ok rt ?L i = block_ok rt L i" if "1 \<le> i" "i < length (chain L)" for i
  proof -
    have len: "0 < length (chain L)" using that by (cases "chain L") simp_all
    have "(chain L)[0 := g] ! 0 = g" using len by (rule nth_list_update_eq)
    with g have "hash (chain ?L ! (i - 1)) = hash (chain L ! (i - 1))"
      by (cases "i - 1 = 0") simp_all
    with that show ?thesis by (simp add: block_ok_def)
  qed
  then show ?thesis
    by (auto simp: is_chain_valid_iff_block_ok)
qed

text \<open>
  C2. \<open>is_chain_valid\<close> is true exactly when every block at an index \<open>i\<close> from 1 on passes
  all three checks: its stored hash is its recomputed hash, its previous-hash field is the
  stored hash of block \<open>i - 1\<close>, and its stored hash begins with \<open>difficulty\<close> zeros. Block 0
  is never checked: replacing it by any block with the same stored hash leaves the result
  unchanged.
\<close>

theorem is_chain_valid_checks:
  "(is_chain_valid rt L \<longleftrightarrow>
      (\<forall>i. 1 \<le> i \<and> i < length (chain L) \<longrightarrow>
         hash (chain L ! i) = Some (calculate_hash rt (chain L ! i)) \<and>
         previous_hash (chain L ! i) = hash (chain L ! (i - 1)) \<and>
         (\<exists>h. hash (chain L ! i) = Some h \<and> startswith h (zeros (difficulty L))))) \<and>
   (hash g = hash (chain L ! 0) \<longrightarrow>
      is_chain_valid rt (L\<lparr>chain := (chain L)[0 := g]\<rparr>) = is_chain_valid rt L)"
proof (intro conjI impI)
  show "is_chain_valid rt L \<longleftrightarrow>
      (\<forall>i. 1 \<le> i \<and> i < length (chain L) \<longrightarrow>
         hash (chain L ! i) = Some (calculate_hash rt (chain L ! i)) \<and>
         previous_hash (chain L ! i) = hash (chain L ! (i - 1)) \<and>
         (\<exists>h. hash (chain L ! i) = Some h \<and> startswith h (zeros (difficulty L))))"
    by (simp add: is_chain_valid_iff_block_ok block_ok_stored)
next
  assume "hash g = hash (chain L ! 0)"
  then show "is_chain_valid rt (L\<lparr>chain := (chain L)[0 := g]\<rparr>) = is_chain_valid rt L"
    by (rule is_chain_valid_replace_block0)
qed

section \<open>Mining the pending pool\<close>

lemma mine_pending_transactions_eq:
  assumes "chain L \<noteq> []" and "pending_transactions L \<noteq> []"
  shows "mine_pending_transactions rt L miner nb nr =
     (case mine_block rt (difficulty L)
             \<lparr> index = int (length (chain L)), transactions = pending_transactions L,
               previous_hash = hash (last (chain L)), block_timestamp = nb, block_nonce = 0,
               hash = None, merkle_root = spec_merkle_root rt (pending_transactions L) \<rparr> of
        None \<Rightarrow> None
      | Some mined \<Rightarrow>
          Some (Inr (Some mined,
            L\<lparr>chain := chain L @ [mined],
              pending_transactions :=
                [\<lparr> sender = ''System'', recipient = miner, amount = mining_reward L,
                   timestamp = nr, signature = None, nonce = ''reward'' \<rparr>]\<rparr>)))"
proof -
  have reward: "Transaction_init rt ''System'' miner (mining_reward L) None (Some ''reward'') nr =
      \<lparr> sender = ''System'', recipient = miner, amount = mining_reward L,
        timestamp = nr, signature = None, nonce = ''reward'' \<rparr>"
    by (simp add: Transaction_init_def py_or_def)
  show ?thesis
    using assms unfolding reward [symmetric]
    by (simp add: mine_pending_transactions_def get_latest_block_def Block_init_eq py_or_def)
qed


section \<open>Admission of transactions\<close>

text \<open>
  C7. \<open>add_transaction\<close> refuses (returns \<^verbatim>\<open>False\<close>) exactly when the sender is not
  \<open>System\<close> and its balance is below the amount; the ledger (chain and pool) is then
  unchanged.
\<close>

theorem add_transaction_insufficient:
  "(\<not> fst (add_transaction rt L s r a now) \<longleftrightarrow> s \<noteq> ''System'' \<and> get_balance L s < a) \<and>
   (\<not> fst (add_transaction rt L s r a now) \<longrightarrow> snd (add_transaction rt L s r a now) = L)"
  by (simp add: add_transaction_def Let_def)

section \<open>The chain invariant\<close>

lemma Blockchain_init_chain:
  assumes "Blockchain_init rt d now = Some r"
  shows "\<exists>g. r = Inr \<lparr> chain = [g], pending_transactions = [], difficulty = d,
                        mining_reward = float_10 rt, wallets = Map.empty \<rparr>"
  using assms
  by (auto simp: Blockchain_init_def create_genesis_block_def Block_init_eq Let_def
      split: option.splits)

lemma is_chain_valid_single: "length (chain L) \<le> 1 \<Longrightarrow> is_chain_valid rt L"
  by (auto simp: is_chain_valid_iff_block_ok)

lemma block_ok_cong:
  "chain L' = chain L \<Longrightarrow> difficulty L' = difficulty L \<Longrightarrow> block_ok rt L' i = block_ok rt L i"
  by (simp add: block_ok_def)

lemma add_transaction_chain:
  "chain (snd (add_transaction rt L s r a now)) = chain L"
  "difficulty (snd (add_transaction rt L s r a now)) = difficulty L"
  by (simp_all add: add_transaction_def Let_def)

lemma add_transaction_valid:
  "is_chain_valid rt (snd (add_transaction rt L s r a now)) = is_chain_valid rt L"
  by (simp add: is_chain_valid_iff_block_ok add_transaction_chain
      block_ok_cong [OF add_transaction_chain])

lemma block_ok_append_old:
  assumes "1 \<le> i" "i < length (chain L)" "chain L' = chain L @ [b]" "difficulty L' = difficulty L"
  shows "block_ok rt L' i = block_ok rt L i"
proof -
  from assms(1,2) have "i - 1 < length (chain L)" by simp
  with assms show ?thesis by (simp add: block_ok_def nth_append)
qed

lemma block_ok_append_new:
  assumes "chain L \<noteq> []" "chain L' = chain L @ [b]" "difficulty L' = difficulty L"
    "hash b = Some (calculate_hash rt b)" "previous_hash b = hash (last (chain L))"
    "startswith (calculate_hash rt b) (zeros (difficulty L))"
  shows "block_ok rt L' (length (chain L))"
  using assms by (simp add: block_ok_def nth_append last_conv_nth)

lemma is_chain_valid_append:
  assumes "chain L \<noteq> []" "is_chain_valid rt L" "chain L' = chain L @ [b]"
    "difficulty L' = difficulty L"
    "hash b = Some (calculate_hash rt b)" "previous_hash b = hash (last (chain L))"
    "startswith (calculate_hash rt b) (zeros (difficulty L))"
  shows "is_chain_valid rt L'"
  unfolding is_chain_valid_iff_block_ok
proof (intro allI impI)
  fix i assume i: "1 \<le> i \<and> i < length (chain L')"
  show "block_ok rt L' i"
  proof (cases "i < length (chain L)")
    case True
    with i assms(2) block_ok_append_old [OF _ True assms(3,4)] show ?thesis
      by (simp add: is_chain_valid_iff_block_ok)
  next
    case False
    with i assms(3) have "i = length (chain L)" by simp
    with block_ok_append_new [OF assms(1,3,4,5,6,7)] show ?thesis by simp
  qed
qed

lemma mine_pending_transactions_valid:
  assumes "chain L \<noteq> []" "is_chain_valid rt L"
    and "mine_pending_transactions rt L miner nb nr = Some r"
  shows "\<exists>res L'. r = Inr (res, L') \<and> chain L' \<noteq> [] \<and> is_chain_valid rt L'"
proof (cases "pending_transactions L = []")
  case True
  with assms show ?thesis by (auto simp: mine_pending_transactions_def)
next
  case False
  let ?blk = "\<lparr> index = int (length (chain L)), transactions = pending_transactions L,
               previous_hash = hash (last (chain L)), block_timestamp = nb, block_nonce = 0,
               hash = None, merkle_root = spec_merkle_root rt (pending_transactions L) \<rparr>"
  from assms(3) obtain mined L' where m: "mine_block rt (difficulty L) ?blk = Some mined"
    and r: "r = Inr (Some mined, L')" and c: "chain L' = chain L @ [mined]"
    and d: "difficulty L' = difficulty L"
    unfolding mine_pending_transactions_eq [OF assms(1) False]
    by (auto split: option.splits)
  from mine_block_result [OF m]
  have "hash mined = Some (calculate_hash rt mined)"
    "startswith (calculate_hash rt mined) (zeros (difficulty L))"
    "previous_hash mined = hash (last (chain L))"
    by simp_all
  with assms(1,2) c d have "is_chain_valid rt L'"
    by (intro is_chain_valid_append [of L rt L' mined]) simp_all
  with r c show ?thesis by simp
qed

lemma run_calls_valid:
  assumes "chain L \<noteq> []" "is_chain_valid rt L" "run_calls rt L cs = Some r"
  shows "\<exists>L'. r = Inr L' \<and> chain L' \<noteq> [] \<and> is_chain_valid rt L'"
  using assms
proof (induction cs arbitrary: L)
  case Nil
  then show ?case by auto
next
  case (Cons c cs)
  show ?case
  proof (cases c)
    case (Submit s rc a now)
    with Cons.prems have "run_calls rt (snd (add_transaction rt L s rc a now)) cs = Some r"
      by simp
    with Cons.prems(1,2) show ?thesis
      by (intro Cons.IH) (simp_all add: add_transaction_chain add_transaction_valid)
  next
    case (Mine miner nb nr)
    with Cons.prems(3) obtain r1 where r1: "mine_pending_transactions rt L miner nb nr = Some r1"
      by (auto split: option.splits)
    from mine_pending_transactions_valid [OF Cons.prems(1,2) r1]
    obtain res L' where L': "r1 = Inr (res, L')" "chain L' \<noteq> []" "is_chain_valid rt L'"
      by blast
    with Cons.prems(3) Mine r1 have "run_calls rt L' cs = Some r" by simp
    with L' show ?thesis by (intro Cons.IH)
  qed
qed

text \<open>
  C1. Starting from a freshly constructed ledger, after any finite sequence of
  \<open>add_transaction\<close> and \<open>mine_pending_transactions\<close> calls that returns, no call has raised
  and \<open>is_chain_valid\<close> is true.
\<close>

theorem chain_valid_after_calls:
  assumes "Blockchain_init rt d now = Some (Inr L0)"
    and "run_calls rt L0 cs = Some r"
  shows "\<exists>L. r = Inr L \<and> is_chain_valid rt L"
proof -
  from Blockchain_init_chain [OF assms(1)] have len: "length (chain L0) = 1" by auto
  then have "chain L0 \<noteq> []" by auto
  moreover from len have "is_chain_valid rt L0" by (simp add: is_chain_valid_single)
  ultimately show ?thesis using run_calls_valid [OF _ _ assms(2)] by blast
qed

section \<open>Tampering with a mined block\<close>

lemma tamper_amount_fields:
  assumes "i < length (chain L)"
  shows "length (chain (tamper_amount L i j v)) = length (chain L)"
    "difficulty (tamper_amount L i j v) = difficulty L"
    "hash (chain (tamper_amount L i j v) ! k) = hash (chain L ! k)"
    "previous_hash (chain (tamper_amount L i j v) ! k) = previous_hash (chain L ! k)"
    "k \<noteq> i \<Longrightarrow> chain (tamper_amount L i j v) ! k = chain L ! k"
  using assms by (simp_all add: tamper_amount_def nth_list_update)

lemma tamper_amount_block0:
  "is_chain_valid rt (tamper_amount L 0 j v) = is_chain_valid rt L"
  unfolding tamper_amount_def
  by (rule is_chain_valid_replace_block0) simp

lemma tamper_amount_valid_iff:
  assumes v: "is_chain_valid rt L" and i: "1 \<le> i" "i < length (chain L)"
  shows "is_chain_valid rt (tamper_amount L i j v) \<longleftrightarrow>
     calculate_hash rt (chain (tamper_amount L i j v) ! i) = calculate_hash rt (chain L ! i)"
proof -
  let ?L = "tamper_amount L i j v"
  note f = tamper_amount_fields [OF i(2), where j = j and v = v]
  from v i have ok: "block_ok rt L i" by (simp add: is_chain_valid_iff_block_ok)
  have other: "block_ok rt ?L k = block_ok rt L k" if "k \<noteq> i" for k
    using that by (simp add: block_ok_def f)
  have here: "block_ok rt ?L i \<longleftrightarrow>
      calculate_hash rt (chain ?L ! i) = calculate_hash rt (chain L ! i)"
    using ok by (auto simp: block_ok_def f)
  show ?thesis
  proof
    assume "is_chain_valid rt ?L"
    with i have "block_ok rt ?L i" by (simp add: is_chain_valid_iff_block_ok f)
    with here show "calculate_hash rt (chain ?L ! i) = calculate_hash rt (chain L ! i)" by simp
  next
    assume "calculate_hash rt (chain ?L ! i) = calculate_hash rt (chain L ! i)"
    with here have hi: "block_ok rt ?L i" by simp
    show "is_chain_valid rt ?L"
      unfolding is_chain_valid_iff_block_ok
    proof (intro allI impI)
      fix k assume k: "1 \<le> k \<and> k < length (chain ?L)"
      show "block_ok rt ?L k"
      proof (cases "k = i")
        case True
        with hi show ?thesis by simp
      next
        case False
        with k v other [OF False] show ?thesis
          by (simp add: is_chain_valid_iff_block_ok f)
      qed
    qed
  qed
qed

lemma to_dict_amount: "to_dict tx' = to_dict tx \<Longrightarrow> amount tx' = amount tx"
  by (simp add: to_dict_def)

lemma block_data_amount_differs:
  assumes j: "j < length (transactions b)" and v: "v \<noteq> amount (transactions b ! j)"
  shows "block_data (b\<lparr>transactions := (transactions b)[j := (transactions b ! j)\<lparr>amount := v\<rparr>]\<rparr>)
           \<noteq> block_data b"
proof
  let ?txs = "transactions b"
  assume "block_data (b\<lparr>transactions := ?txs[j := (?txs ! j)\<lparr>amount := v\<rparr>]\<rparr>) = block_data b"
  then have "map to_dict (?txs[j := (?txs ! j)\<lparr>amount := v\<rparr>]) = map to_dict ?txs"
    by (simp add: block_data_def)
  then have "map to_dict (?txs[j := (?txs ! j)\<lparr>amount := v\<rparr>]) ! j = map to_dict ?txs ! j"
    by simp
  with j have "to_dict ((?txs ! j)\<lparr>amount := v\<rparr>) = to_dict (?txs ! j)"
    by simp
  from to_dict_amount [OF this] v show False by simp
qed

lemma tamper_amount_block:
  assumes "i < length (chain L)"
  shows "chain (tamper_amount L i j v) ! i =
     (chain L ! i)\<lparr>transactions :=
        (transactions (chain L ! i))[j := (transactions (chain L ! i) ! j)\<lparr>amount := v\<rparr>]\<rparr>"
  using assms by (simp add: tamper_amount_def)

text \<open>
  C8 (amended). On a valid chain, writing a different amount into a transaction of a block
  at an index \<open>i \<ge> 1\<close> makes \<open>is_chain_valid\<close> false, unless the hash of the serialised
  block collides with that of the block as it was: the amount is part of what the block
  hash covers.
\<close>

theorem tamper_amount_detection:
  assumes valid: "is_chain_valid rt L"
    and i: "1 \<le> i" "i < length (chain L)"
    and j: "j < length (transactions (chain L ! i))"
    and v: "v \<noteq> amount (transactions (chain L ! i) ! j)"
    and no_collision:
      "inj_on (\<lambda>x. sha3_256_hexdigest rt (json_dumps rt x))
         {block_data (chain L ! i), block_data (chain (tamper_amount L i j v) ! i)}"
  shows "\<not> is_chain_valid rt (tamper_amount L i j v)"
proof
  assume "is_chain_valid rt (tamper_amount L i j v)"
  then have "calculate_hash rt (chain (tamper_amount L i j v) ! i) =
      calculate_hash rt (chain L ! i)"
    by (rule tamper_amount_valid_iff [OF valid i, THEN iffD1])
  then have eq: "sha3_256_hexdigest rt (json_dumps rt (block_data (chain (tamper_amount L i j v) ! i))) =
      sha3_256_hexdigest rt (json_dumps rt (block_data (chain L ! i)))"
    unfolding calculate_hash_def .
  have "block_data (chain (tamper_amount L i j v) ! i) = block_data (chain L ! i)"
    by (rule inj_onD [OF no_collision eq]) simp_all
  then have "block_data ((chain L ! i)\<lparr>transactions :=
        (transactions (chain L ! i))[j := (transactions (chain L ! i) ! j)\<lparr>amount := v\<rparr>]\<rparr>) =
      block_data (chain L ! i)"
    unfolding tamper_amount_block [OF i(2)] .
  with block_data_amount_differs [OF j v] show False by (rule notE)
qed

text \<open>A hash and a serialisation that are injective never collide.\<close>

lemma inj_no_collision:
  assumes "inj (sha3_256_hexdigest rt)" and "inj (json_dumps rt)"
  shows "inj_on (\<lambda>x. sha3_256_hexdigest rt (json_dumps rt x)) A"
proof (rule inj_onI)
  fix x y
  assume "sha3_256_hexdigest rt (json_dumps rt x) = sha3_256_hexdigest rt (json_dumps rt y)"
  with assms(1) have "json_dumps rt x = json_dumps rt y" by (rule injD)
  with assms(2) show "x = y" by (rule injD)
qed

section \<open>Nonces of reward transactions\<close>

lemma Blockchain_init_genesis:
  assumes "Blockchain_init rt d now = Some (Inr L)"
  shows "\<exists>g tx. chain L = [g] \<and> transactions g = [tx] \<and> nonce tx = ''genesis''"
proof -
  let ?tx = "Transaction_init rt ''System'' ''Genesis'' 0 None (Some ''genesis'') now"
  let ?blk = "\<lparr> index = 0, transactions = [?tx], previous_hash = Some (replicate 64 CHR ''0''),
      block_timestamp = py_or (Some ''2025-01-01T00:00:00'') now, block_nonce = 0, hash = None,
      merkle_root = spec_merkle_root rt [?tx] \<rparr>"
  from assms obtain g where g: "mine_block rt d ?blk = Some g" and L: "chain L = [g]"
    by (auto simp: Blockchain_init_def create_genesis_block_def Block_init_eq Let_def
        split: option.splits)
  from mine_block_result(4) [OF g] have "transactions g = [?tx]" by simp
  moreover have "nonce ?tx = ''genesis''" by (simp add: Transaction_init_def py_or_def)
  ultimately show ?thesis using L by blast
qed

lemma mine_pending_transactions_mined:
  assumes "mine_pending_transactions rt L miner nb nr = Some (Inr (Some b, L'))"
  shows "chain L' = chain L @ [b]" "transactions b = pending_transactions L"
    "pending_transactions L' =
       [\<lparr> sender = ''System'', recipient = miner, amount = mining_reward L,
          timestamp = nr, signature = None, nonce = ''reward'' \<rparr>]"
proof -
  from assms have p: "pending_transactions L \<noteq> []"
    by (auto simp: mine_pending_transactions_def)
  from assms p have c: "chain L \<noteq> []"
    by (auto simp: mine_pending_transactions_def get_latest_block_def)
  let ?blk = "\<lparr> index = int (length (chain L)), transactions = pending_transactions L,
               previous_hash = hash (last (chain L)), block_timestamp = nb, block_nonce = 0,
               hash = None, merkle_root = spec_merkle_root rt (pending_transactions L) \<rparr>"
  from assms have m: "mine_block rt (difficulty L) ?blk = Some b"
    and L': "L' = L\<lparr>chain := chain L @ [b],
              pending_transactions :=
                [\<lparr> sender = ''System'', recipient = miner, amount = mining_reward L,
                   timestamp = nr, signature = None, nonce = ''reward'' \<rparr>]\<rparr>"
    unfolding mine_pending_transactions_eq [OF c p]
    by (auto split: option.splits)
  from L' show "chain L' = chain L @ [b]" by simp
  from mine_block_result(4) [OF m] show "transactions b = pending_transactions L" by simp
  from L' show "pending_transactions L' =
       [\<lparr> sender = ''System'', recipient = miner, amount = mining_reward L,
          timestamp = nr, signature = None, nonce = ''reward'' \<rparr>]" by simp
qed

lemma reward_pending_add:
  "reward_pending L \<Longrightarrow> reward_pending (snd (add_transaction rt L s r a now))"
  by (auto simp: reward_pending_def add_transaction_def Let_def)

lemma reward_pending_mine:
  assumes "reward_pending L" "mine_pending_transactions rt L miner nb nr = Some (Inr (res, L'))"
  shows "reward_pending L'"
proof (cases res)
  case None
  from assms(1) have p: "pending_transactions L \<noteq> []" by (auto simp: reward_pending_def)
  show ?thesis
  proof (cases "chain L = []")
    case True
    with assms(2) p show ?thesis
      by (simp add: mine_pending_transactions_def get_latest_block_def)
  next
    case False
    from assms(2) None show ?thesis
      unfolding mine_pending_transactions_eq [OF False p]
      by (simp split: option.splits)
  qed
next
  case (Some b)
  with assms(2) have "mine_pending_transactions rt L miner nb nr = Some (Inr (Some b, L'))"
    by simp
  from mine_pending_transactions_mined(3) [OF this]
  show ?thesis by (simp add: reward_pending_def)
qed

lemma reward_pending_run:
  "reward_pending L \<Longrightarrow> run_calls rt L cs = Some (Inr L') \<Longrightarrow> reward_pending L'"
proof (induction cs arbitrary: L)
  case Nil
  then show ?case by simp
next
  case (Cons c cs)
  show ?case
  proof (cases c)
    case (Submit s r a now)
    with Cons.prems show ?thesis
      by (auto intro: Cons.IH reward_pending_add)
  next
    case (Mine miner nb nr)
    with Cons.prems(2) obtain res L1 where
      m: "mine_pending_transactions rt L miner nb nr = Some (Inr (res, L1))"
      and r: "run_calls rt L1 cs = Some (Inr L')"
      by (auto split: option.splits sum.splits)
    from reward_pending_mine [OF Cons.prems(1) m] r show ?thesis by (rule Cons.IH)
  qed
qed

lemma two_rewards:
  assumes "mine_pending_transactions rt L miner nb nr = Some (Inr (Some b, L1))"
    and "run_calls rt L1 cs = Some (Inr L2)"
    and "mine_pending_transactions rt L2 miner2 nb2 nr2 = Some (Inr (Some b2, L3))"
  shows "\<exists>i j. i < j \<and> j < length (ledger_transactions L3) \<and>
           nonce (ledger_transactions L3 ! i) = ''reward'' \<and>
           nonce (ledger_transactions L3 ! j) = ''reward''"
proof -
  from mine_pending_transactions_mined(3) [OF assms(1)] have "reward_pending L1"
    by (simp add: reward_pending_def)
  from reward_pending_run [OF this assms(2)] obtain tx where
    tx: "tx \<in> set (pending_transactions L2)" "nonce tx = ''reward''"
    by (auto simp: reward_pending_def)
  then obtain p where p: "p < length (pending_transactions L2)" "pending_transactions L2 ! p = tx"
    by (auto simp: in_set_conv_nth)
  note m = mine_pending_transactions_mined [OF assms(3)]
  let ?old = "concat (map transactions (chain L2))"
  let ?rw = "\<lparr> sender = ''System'', recipient = miner2, amount = mining_reward L2,
          timestamp = nr2, signature = None, nonce = ''reward'' \<rparr>"
  have all: "ledger_transactions L3 = ?old @ pending_transactions L2 @ [?rw]"
    by (simp add: ledger_transactions_def m)
  let ?i = "length ?old + p" and ?j = "length ?old + length (pending_transactions L2)"
  have "ledger_transactions L3 ! ?i = tx"
    using p by (simp add: all nth_append)
  moreover have "ledger_transactions L3 ! ?j = ?rw"
    by (simp add: all nth_append)
  moreover have "?i < ?j" "?j < length (ledger_transactions L3)"
    using p by (simp_all add: all)
  ultimately show ?thesis using tx(2) by (intro exI [of _ ?i] exI [of _ ?j]) simp
qed

text \<open>
  C10 (amended). The genesis transaction carries the nonce \<open>genesis\<close> and every reward
  transaction left in the pool by a mining call carries the nonce \<open>reward\<close>, neither
  derived from a hash. Hence after two calls of \<open>mine_pending_transactions\<close> that each
  mine a block, with any calls in between, two transactions at different places in the
  ledger carry the same nonce.
\<close>

theorem reward_nonce_shared:
  "(Blockchain_init rt d now = Some (Inr L0) \<longrightarrow>
      (\<exists>g tx. chain L0 = [g] \<and> transactions g = [tx] \<and> nonce tx = ''genesis'')) \<and>
   (mine_pending_transactions rt L miner nb nr = Some (Inr (Some b, L1)) \<longrightarrow>
      (\<exists>tx. pending_transactions L1 = [tx] \<and> nonce tx = ''reward'')) \<and>
   (mine_pending_transactions rt L miner nb nr = Some (Inr (Some b, L1)) \<and>
    run_calls rt L1 cs = Some (Inr L2) \<and>
    mine_pending_transactions rt L2 miner2 nb2 nr2 = Some (Inr (Some b2, L3)) \<longrightarrow>
      (\<exists>i j. i < j \<and> j < length (ledger_transactions L3) \<and>
         nonce (ledger_transactions L3 ! i) = ''reward'' \<and>
         nonce (ledger_transactions L3 ! j) = ''reward''))"
proof (intro conjI impI)
  assume "Blockchain_init rt d now = Some (Inr L0)"
  then show "\<exists>g tx. chain L0 = [g] \<and> transactions g = [tx] \<and> nonce tx = ''genesis''"
    by (rule Blockchain_init_genesis)
next
  assume "mine_pending_transactions rt L miner nb nr = Some (Inr (Some b, L1))"
  from mine_pending_transactions_mined(3) [OF this]
  show "\<exists>tx. pending_transactions L1 = [tx] \<and> nonce tx = ''reward''" by simp
next
  assume "mine_pending_transactions rt L miner nb nr = Some (Inr (Some b, L1)) \<and>
    run_calls rt L1 cs = Some (Inr L2) \<and>
    mine_pending_transactions rt L2 miner2 nb2 nr2 = Some (Inr (Some b2, L3))"
  then show "\<exists>i j. i < j \<and> j < length (ledger_transactions L3) \<and>
         nonce (ledger_transactions L3 ! i) = ''reward'' \<and>
         nonce (ledger_transactions L3 ! j) = ''reward''"
    by (elim conjE) (rule two_rewards)
qed

section \<open>The concrete instance, evaluated\<close>

lemma mod4_step:
  "w mod 4 = 0 \<Longrightarrow> (w + 2) mod 4 = (2::nat)"
  "w mod 4 = 1 \<Longrightarrow> (w + 1) mod 4 = (2::nat)"
  "w mod 4 = 3 \<Longrightarrow> (w + 3) mod 4 = (2::nat)"
  by presburger+

lemma demo_mine_eval:
  assumes "block_nonce b = 0"
  shows "mine_block demo_rt 1 b =
     Some (mined_at demo_rt b
       (if demo_weight b mod 4 = 0 then 2 else if demo_weight b mod 4 = 1 then 1
        else if demo_weight b mod 4 = 2 then 0 else 3))"
proof -
  let ?w = "demo_weight b"
  have "?w mod 4 = 0 \<or> ?w mod 4 = 1 \<or> ?w mod 4 = 2 \<or> ?w mod 4 = 3" by arith
  then show ?thesis
  proof (elim disjE)
    assume c: "?w mod 4 = 0"
    have "mine_block demo_rt 1 b = Some (mined_at demo_rt b (int 2))"
      by (rule demo_mine [OF assms]) (rule mod4_step(1) [OF c], simp)
    with c show ?thesis by simp
  next
    assume c: "?w mod 4 = 1"
    have "mine_block demo_rt 1 b = Some (mined_at demo_rt b (int 1))"
      by (rule demo_mine [OF assms]) (rule mod4_step(2) [OF c], simp)
    with c show ?thesis by simp
  next
    assume c: "?w mod 4 = 2"
    have "mine_block demo_rt 1 b = Some (mined_at demo_rt b (int 0))"
      by (rule demo_mine [OF assms]) (simp_all add: c)
    with c show ?thesis by simp
  next
    assume c: "?w mod 4 = 3"
    have "mine_block demo_rt 1 b = Some (mined_at demo_rt b (int 3))"
      by (rule demo_mine [OF assms]) (rule mod4_step(3) [OF c], simp)
    with c show ?thesis by simp
  qed
qed

lemma demo_rt_sel [simp]:
  "sha3_256_hexdigest demo_rt = demo_hash" "json_dumps demo_rt = demo_dumps"
  "float_10 demo_rt = 10" "format_amount demo_rt = (\<lambda>a. [])"
  by (simp_all add: demo_rt_def)

lemmas demo_calls =
  Blockchain_init_def create_genesis_block_def add_transaction_def
  mine_pending_transactions_def get_latest_block_def Block_init_eq Transaction_init_def
  py_or_def Let_def get_balance_def apply_tx_def

lemmas demo_hashes =
  spec_merkle_root_def spec_level_def get_hash_def demo_size_to_dict demo_dumps_def
  demo_hash_def

lemmas demo_values =
  demo_ledger0_def demo_ledger1_def demo_ledger2_def demo_genesis_def demo_block1_def
  demo_block2_def demo_reward_def

lemma demo_ledger0_init: "Blockchain_init demo_rt 1 ''t0'' = Some (Inr demo_ledger0)"
  unfolding demo_values
  apply (simp add: demo_calls)
  apply (simp add: demo_hashes)
  apply (simp add: demo_mine_eval)
  apply (simp add: demo_weight_def)
  apply (simp add: mined_at_def)
  apply (simp add: demo_calculate_hash)
  apply (simp add: demo_weight_def)
  done

lemma demo_ledger1_run:
  "run_calls demo_rt demo_ledger0
     [Submit ''System'' ''Alice'' 100 ''t1'', Mine ''Alice'' ''t2'' ''t3''] =
   Some (Inr demo_ledger1)"
  unfolding demo_values
  apply (simp add: demo_calls)
  apply (simp add: demo_hashes)
  apply (simp add: demo_mine_eval)
  apply (simp add: demo_weight_def)
  apply (simp add: mined_at_def)
  apply (simp add: demo_calculate_hash)
  apply (simp add: demo_weight_def Transaction_init_def py_or_def)
  done

lemma demo_ledger2_run:
  "run_calls demo_rt demo_ledger1
     [Submit ''Alice'' ''Bob'' 30 ''t4'', Mine ''Bob'' ''t5'' ''t6''] =
   Some (Inr demo_ledger2)"
  unfolding demo_values
  apply (simp add: demo_calls)
  apply (simp add: demo_hashes)
  apply (simp add: demo_mine_eval)
  apply (simp add: demo_weight_def)
  apply (simp add: mined_at_def)
  apply (simp add: demo_calculate_hash)
  apply (simp add: demo_weight_def Transaction_init_def py_or_def)
  done

lemma run_calls_append:
  "run_calls rt L (cs @ ds) =
     (case run_calls rt L cs of
        None \<Rightarrow> None
      | Some (Inl e) \<Rightarrow> Some (Inl e)
      | Some (Inr L') \<Rightarrow> run_calls rt L' ds)"
proof (induction cs arbitrary: L)
  case Nil
  show ?case by simp
next
  case (Cons c cs)
  show ?case
    by (cases c) (simp_all add: Cons.IH split: option.splits sum.splits prod.splits)
qed

lemma demo_balances:
  "get_balance demo_ledger0 ''Alice'' = 0" "get_balance demo_ledger1 ''Alice'' = 110"
  by (simp_all add: get_balance_def apply_tx_def demo_values)

theorem chain_valid_after_calls_witness:
  "Blockchain_init demo_rt 1 ''t0'' = Some (Inr demo_ledger0) \<and>
   run_calls demo_rt demo_ledger0
     [Submit ''System'' ''Alice'' 100 ''t1'', Mine ''Alice'' ''t2'' ''t3'',
      Submit ''Alice'' ''Bob'' 30 ''t4'', Mine ''Bob'' ''t5'' ''t6''] = Some (Inr demo_ledger2) \<and>
   is_chain_valid demo_rt demo_ledger2"
proof -
  have run: "run_calls demo_rt demo_ledger0
     ([Submit ''System'' ''Alice'' 100 ''t1'', Mine ''Alice'' ''t2'' ''t3''] @
      [Submit ''Alice'' ''Bob'' 30 ''t4'', Mine ''Bob'' ''t5'' ''t6'']) = Some (Inr demo_ledger2)"
    by (simp only: run_calls_append demo_ledger1_run demo_ledger2_run option.case sum.case)
  then have run': "run_calls demo_rt demo_ledger0
     [Submit ''System'' ''Alice'' 100 ''t1'', Mine ''Alice'' ''t2'' ''t3'',
      Submit ''Alice'' ''Bob'' 30 ''t4'', Mine ''Bob'' ''t5'' ''t6''] = Some (Inr demo_ledger2)"
    by simp
  from chain_valid_after_calls [OF demo_ledger0_init run']
  have "is_chain_valid demo_rt demo_ledger2" by simp
  with demo_ledger0_init run' show ?thesis by simp
qed

theorem is_chain_valid_checks_witness:
  "is_chain_valid demo_rt demo_ledger1 \<and>
   (1::nat) < length (chain demo_ledger1) \<and>
   hash (chain demo_ledger1 ! 1) = Some (calculate_hash demo_rt (chain demo_ledger1 ! 1)) \<and>
   previous_hash (chain demo_ledger1 ! 1) = hash (chain demo_ledger1 ! 0) \<and>
   (\<exists>h. hash (chain demo_ledger1 ! 1) = Some h \<and> startswith h (zeros (difficulty demo_ledger1))) \<and>
   is_chain_valid demo_rt
     (demo_ledger1\<lparr>chain := (chain demo_ledger1)[0 := demo_genesis\<lparr>transactions := []\<rparr>]\<rparr>)"
proof -
  note main = is_chain_valid_checks [of demo_rt demo_ledger1 "demo_genesis\<lparr>transactions := []\<rparr>"]
  have "chain demo_ledger0 \<noteq> []" "is_chain_valid demo_rt demo_ledger0"
    by (simp_all add: demo_ledger0_def is_chain_valid_single)
  from run_calls_valid [OF this demo_ledger1_run]
  have v: "is_chain_valid demo_rt demo_ledger1" by simp
  have len: "(1::nat) \<le> 1 \<and> 1 < length (chain demo_ledger1)"
    by (simp add: demo_ledger1_def)
  from main v len
  have "hash (chain demo_ledger1 ! 1) = Some (calculate_hash demo_rt (chain demo_ledger1 ! 1)) \<and>
    previous_hash (chain demo_ledger1 ! 1) = hash (chain demo_ledger1 ! (1 - 1)) \<and>
    (\<exists>h. hash (chain demo_ledger1 ! 1) = Some h \<and> startswith h (zeros (difficulty demo_ledger1)))"
    by blast
  moreover have "hash (demo_genesis\<lparr>transactions := []\<rparr>) = hash (chain demo_ledger1 ! 0)"
    by (simp add: demo_ledger1_def)
  with main v have "is_chain_valid demo_rt
     (demo_ledger1\<lparr>chain := (chain demo_ledger1)[0 := demo_genesis\<lparr>transactions := []\<rparr>]\<rparr>)"
    by blast
  ultimately show ?thesis using v len by auto
qed


theorem add_transaction_insufficient_witness:
  "\<not> fst (add_transaction demo_rt demo_ledger0 ''Alice'' ''Bob'' 5 ''t1'') \<and>
   snd (add_transaction demo_rt demo_ledger0 ''Alice'' ''Bob'' 5 ''t1'') = demo_ledger0 \<and>
   fst (add_transaction demo_rt demo_ledger1 ''Alice'' ''Bob'' 5 ''t1'') \<and>
   fst (add_transaction demo_rt demo_ledger0 ''System'' ''Bob'' 5 ''t1'')"
  using add_transaction_insufficient [of demo_rt demo_ledger0 "''Alice''" "''Bob''" 5 "''t1''"]
    add_transaction_insufficient [of demo_rt demo_ledger1 "''Alice''" "''Bob''" 5 "''t1''"]
    add_transaction_insufficient [of demo_rt demo_ledger0 "''System''" "''Bob''" 5 "''t1''"]
  by (simp add: demo_balances)

lemma demo_ledger1_valid: "is_chain_valid demo_rt demo_ledger1"
proof -
  have "chain demo_ledger0 \<noteq> []" "is_chain_valid demo_rt demo_ledger0"
    by (simp_all add: demo_ledger0_def is_chain_valid_single)
  from run_calls_valid [OF this demo_ledger1_run] show ?thesis by simp
qed

theorem tamper_amount_detection_witness:
  "is_chain_valid demo_rt demo_ledger1 \<and>
   amount (transactions (chain demo_ledger1 ! 1) ! 0) = 100 \<and>
   calculate_hash demo_rt (chain demo_ledger1 ! 1) = replicate 64 CHR ''0'' \<and>
   calculate_hash demo_rt (chain (tamper_amount demo_ledger1 1 0 101) ! 1) = replicate 64 CHR ''f'' \<and>
   \<not> is_chain_valid demo_rt (tamper_amount demo_ledger1 1 0 101)"
proof -
  have len: "(1::nat) \<le> 1" "(1::nat) < length (chain demo_ledger1)"
    "(0::nat) < length (transactions (chain demo_ledger1 ! 1))"
    by (simp_all add: demo_values)
  have a: "amount (transactions (chain demo_ledger1 ! 1) ! 0) = 100"
    by (simp add: demo_values)
  have h: "calculate_hash demo_rt (chain demo_ledger1 ! 1) = replicate 64 CHR ''0''"
    "calculate_hash demo_rt (chain (tamper_amount demo_ledger1 1 0 101) ! 1) = replicate 64 CHR ''f''"
    by (simp_all add: demo_calculate_hash demo_weight_def tamper_amount_def demo_values)
  define x where "x = block_data (chain demo_ledger1 ! 1)"
  define y where "y = block_data (chain (tamper_amount demo_ledger1 1 0 101) ! 1)"
  define f where "f = (\<lambda>z. sha3_256_hexdigest demo_rt (json_dumps demo_rt z))"
  have "f x = replicate 64 CHR ''0''" "f y = replicate 64 CHR ''f''"
    unfolding f_def x_def y_def h [unfolded calculate_hash_def] by (rule refl)+
  then have "f x \<noteq> f y" by simp
  then have "inj_on f {x, y}" by (auto simp: inj_on_def)
  then have nc: "inj_on (\<lambda>z. sha3_256_hexdigest demo_rt (json_dumps demo_rt z))
      {block_data (chain demo_ledger1 ! 1),
       block_data (chain (tamper_amount demo_ledger1 1 0 101) ! 1)}"
    unfolding f_def x_def y_def .
  have v: "(101::int) \<noteq> amount (transactions (chain demo_ledger1 ! 1) ! 0)"
    unfolding a by simp
  note detected = tamper_amount_detection [OF demo_ledger1_valid len v nc]
  show ?thesis by (intro conjI demo_ledger1_valid a h detected)
qed

text \<open>
  The claim as stated fails on block 0: the amount of the genesis transaction is changed
  from 0 to 999 and the chain is still reported valid.
\<close>

theorem tamper_genesis_counterexample:
  "is_chain_valid demo_rt demo_ledger1 \<and>
   amount (transactions (chain demo_ledger1 ! 0) ! 0) = 0 \<and>
   amount (transactions (chain (tamper_amount demo_ledger1 0 0 999) ! 0) ! 0) = 999 \<and>
   is_chain_valid demo_rt (tamper_amount demo_ledger1 0 0 999)"
proof -
  have "amount (transactions (chain demo_ledger1 ! 0) ! 0) = 0"
    "amount (transactions (chain (tamper_amount demo_ledger1 0 0 999) ! 0) ! 0) = 999"
    by (simp_all add: tamper_amount_def demo_values)
  then show ?thesis using demo_ledger1_valid by (simp add: tamper_amount_block0)
qed

text \<open>
  C9. No check on the sign of an amount is made anywhere. On the fresh ledger a
  transaction of -5 from Alice, whose balance is 0, to Bob is created with that amount and
  admitted to the pool; Alice's balance is then 5 and Bob's -5, and Alice is allowed to
  spend 5.
\<close>

theorem negative_amount_accepted:
  "(- 5 :: int) < 0 \<and>
   amount (Transaction_init demo_rt ''Alice'' ''Bob'' (- 5) None None ''t1'') = - 5 \<and>
   get_balance demo_ledger0 ''Alice'' = 0 \<and>
   add_transaction demo_rt demo_ledger0 ''Alice'' ''Bob'' (- 5) ''t1'' =
     (True, demo_ledger0\<lparr>pending_transactions :=
        [Transaction_init demo_rt ''Alice'' ''Bob'' (- 5) None None ''t1'']\<rparr>) \<and>
   get_balance (snd (add_transaction demo_rt demo_ledger0 ''Alice'' ''Bob'' (- 5) ''t1'')) ''Alice'' = 5 \<and>
   get_balance (snd (add_transaction demo_rt demo_ledger0 ''Alice'' ''Bob'' (- 5) ''t1'')) ''Bob'' = - 5 \<and>
   fst (add_transaction demo_rt
          (snd (add_transaction demo_rt demo_ledger0 ''Alice'' ''Bob'' (- 5) ''t1''))
          ''Alice'' ''Carol'' 5 ''t2'')"
proof -
  have step: "add_transaction demo_rt demo_ledger0 ''Alice'' ''Bob'' (- 5) ''t1'' =
     (True, demo_ledger0\<lparr>pending_transactions :=
        [Transaction_init demo_rt ''Alice'' ''Bob'' (- 5) None None ''t1'']\<rparr>)"
    by (simp add: add_transaction_def Let_def get_balance_def apply_tx_def demo_values
        Transaction_init_def)
  have bal: "get_balance (demo_ledger0\<lparr>pending_transactions :=
        [Transaction_init demo_rt ''Alice'' ''Bob'' (- 5) None None ''t1'']\<rparr>) ''Alice'' = 5"
    "get_balance (demo_ledger0\<lparr>pending_transactions :=
        [Transaction_init demo_rt ''Alice'' ''Bob'' (- 5) None None ''t1'']\<rparr>) ''Bob'' = - 5"
    by (simp_all add: get_balance_def apply_tx_def demo_values Transaction_init_def)
  have spend: "fst (add_transaction demo_rt (demo_ledger0\<lparr>pending_transactions :=
        [Transaction_init demo_rt ''Alice'' ''Bob'' (- 5) None None ''t1'']\<rparr>)
          ''Alice'' ''Carol'' 5 ''t2'')"
    using bal(1) by (simp add: add_transaction_def Let_def)
  have neg: "(- 5 :: int) < 0"
    and kept: "amount (Transaction_init demo_rt ''Alice'' ''Bob'' (- 5) None None ''t1'') = - 5"
    by (simp_all add: Transaction_init_def)
  show ?thesis
    unfolding step snd_conv
    by (intro conjI neg kept demo_balances(1) refl bal spend)
qed

lemma demo_mined1:
  "mine_pending_transactions demo_rt
     (snd (add_transaction demo_rt demo_ledger0 ''System'' ''Alice'' 100 ''t1''))
     ''Alice'' ''t2'' ''t3'' = Some (Inr (Some demo_block1, demo_ledger1))"
  unfolding demo_values
  apply (simp add: demo_calls)
  apply (simp add: demo_hashes)
  apply (simp add: demo_mine_eval)
  apply (simp add: demo_weight_def)
  apply (simp add: mined_at_def)
  apply (simp add: demo_calculate_hash)
  apply (simp add: demo_weight_def Transaction_init_def py_or_def)
  done

lemma demo_mined2:
  "mine_pending_transactions demo_rt
     (snd (add_transaction demo_rt demo_ledger1 ''Alice'' ''Bob'' 30 ''t4''))
     ''Bob'' ''t5'' ''t6'' = Some (Inr (Some demo_block2, demo_ledger2))"
  unfolding demo_values
  apply (simp add: demo_calls)
  apply (simp add: demo_hashes)
  apply (simp add: demo_mine_eval)
  apply (simp add: demo_weight_def)
  apply (simp add: mined_at_def)
  apply (simp add: demo_calculate_hash)
  apply (simp add: demo_weight_def Transaction_init_def py_or_def)
  done

theorem reward_nonce_shared_witness:
  "(\<exists>g tx. chain demo_ledger0 = [g] \<and> transactions g = [tx] \<and> nonce tx = ''genesis'') \<and>
   (\<exists>tx. pending_transactions demo_ledger1 = [tx] \<and> nonce tx = ''reward'') \<and>
   (\<exists>i j. i < j \<and> j < length (ledger_transactions demo_ledger2) \<and>
      nonce (ledger_transactions demo_ledger2 ! i) = ''reward'' \<and>
      nonce (ledger_transactions demo_ledger2 ! j) = ''reward'')"
proof -
  have run: "run_calls demo_rt demo_ledger1 [Submit ''Alice'' ''Bob'' 30 ''t4''] =
      Some (Inr (snd (add_transaction demo_rt demo_ledger1 ''Alice'' ''Bob'' 30 ''t4'')))"
    by simp
  note main = reward_nonce_shared [of demo_rt 1 "''t0''" demo_ledger0
      "snd (add_transaction demo_rt demo_ledger0 ''System'' ''Alice'' 100 ''t1'')"
      "''Alice''" "''t2''" "''t3''" demo_block1 demo_ledger1
      "[Submit ''Alice'' ''Bob'' 30 ''t4'']"
      "snd (add_transaction demo_rt demo_ledger1 ''Alice'' ''Bob'' 30 ''t4'')"
      "''Bob''" "''t5''" "''t6''" demo_block2 demo_ledger2]
  note genesis = main [THEN conjunct1, THEN mp, OF demo_ledger0_init]
  note reward = main [THEN conjunct2, THEN conjunct1, THEN mp, OF demo_mined1]
  note shared = main [THEN conjunct2, THEN conjunct2, THEN mp,
    OF conjI [OF demo_mined1 conjI [OF run demo_mined2]]]
  show ?thesis by (intro conjI genesis reward shared)
qed

text \<open>
  The claim as stated fails when the calls find the pool empty: two mining calls on a
  fresh ledger change nothing, and the ledger holds the genesis transaction alone.
\<close>

theorem no_shared_nonce_counterexample:
  "Blockchain_init demo_rt 1 ''t0'' = Some (Inr demo_ledger0) \<and>
   run_calls demo_rt demo_ledger0 [Mine ''Alice'' ''t1'' ''t2'', Mine ''Bob'' ''t3'' ''t4''] =
     Some (Inr demo_ledger0) \<and>
   length (ledger_transactions demo_ledger0) = 1"
proof -
  have "pending_transactions demo_ledger0 = []" by (simp add: demo_values)
  then have "run_calls demo_rt demo_ledger0
      [Mine ''Alice'' ''t1'' ''t2'', Mine ''Bob'' ''t3'' ''t4''] = Some (Inr demo_ledger0)"
    by (simp add: mine_pending_transactions_def)
  moreover have "length (ledger_transactions demo_ledger0) = 1"
    by (simp add: ledger_transactions_def demo_values)
  ultimately show ?thesis using demo_ledger0_init by simp
qed

end
